theory Spec2Isabelle
  imports Complex_Main
begin

section \<open>JavaScript numbers\<close>

text \<open>
  The metronome (js/metronome.js, js/mobile.js) computes with JavaScript numbers. A number
  is modelled as a real (the finite doubles, idealised: no rounding, no overflow, no
  negative zero), one of the two infinities, or NaN. The operations below are the ones
  the source uses, with the results ECMAScript gives on the special values.

  Double arithmetic rounds, and the timestamps of the scheduler are sums of rounded
  fractions of a second. What is proved below about timestamps is therefore kept to what
  rounding does not change: equalities between a value and the expression the code
  computes it with, and the order of timestamps (adding a non-negative interval never
  lowers a timestamp). No number of loop iterations and no termination of a pass is derived
  from exact arithmetic. The beat and subdivision indices are integers; doubles hold them
  exactly up to \<open>2 ^ 53\<close>.
\<close>

datatype jsnum = Fin real | PInf | NInf | NaN

text \<open>\<^verbatim>\<open>a + b\<close>\<close>

fun js_add :: "jsnum \<Rightarrow> jsnum \<Rightarrow> jsnum" where
  "js_add (Fin a) (Fin b) = Fin (a + b)"
| "js_add NaN _ = NaN"
| "js_add _ NaN = NaN"
| "js_add PInf NInf = NaN"
| "js_add NInf PInf = NaN"
| "js_add PInf _ = PInf"
| "js_add _ PInf = PInf"
| "js_add NInf _ = NInf"
| "js_add _ NInf = NInf"

text \<open>\<^verbatim>\<open>a - b\<close>\<close>

fun js_neg :: "jsnum \<Rightarrow> jsnum" where
  "js_neg (Fin a) = Fin (- a)"
| "js_neg PInf = NInf"
| "js_neg NInf = PInf"
| "js_neg NaN = NaN"

definition js_sub :: "jsnum \<Rightarrow> jsnum \<Rightarrow> jsnum" where
  "js_sub a b = js_add a (js_neg b)"

text \<open>\<^verbatim>\<open>a * b\<close>: an infinity times zero is NaN.\<close>

fun js_mul :: "jsnum \<Rightarrow> jsnum \<Rightarrow> jsnum" where
  "js_mul (Fin a) (Fin b) = Fin (a * b)"
| "js_mul NaN _ = NaN"
| "js_mul _ NaN = NaN"
| "js_mul PInf (Fin b) = (if 0 < b then PInf else if b < 0 then NInf else NaN)"
| "js_mul NInf (Fin b) = (if 0 < b then NInf else if b < 0 then PInf else NaN)"
| "js_mul (Fin a) PInf = (if 0 < a then PInf else if a < 0 then NInf else NaN)"
| "js_mul (Fin a) NInf = (if 0 < a then NInf else if a < 0 then PInf else NaN)"
| "js_mul PInf PInf = PInf"
| "js_mul PInf NInf = NInf"
| "js_mul NInf PInf = NInf"
| "js_mul NInf NInf = PInf"

text \<open>\<^verbatim>\<open>a / b\<close>: a finite non-zero number over zero is an infinity, zero over zero is NaN.\<close>

fun js_div :: "jsnum \<Rightarrow> jsnum \<Rightarrow> jsnum" where
  "js_div (Fin a) (Fin b) =
     (if b \<noteq> 0 then Fin (a / b)
      else if 0 < a then PInf else if a < 0 then NInf else NaN)"
| "js_div NaN _ = NaN"
| "js_div _ NaN = NaN"
| "js_div (Fin a) PInf = Fin 0"
| "js_div (Fin a) NInf = Fin 0"
| "js_div PInf (Fin b) = (if 0 \<le> b then PInf else NInf)"
| "js_div NInf (Fin b) = (if 0 \<le> b then NInf else PInf)"
| "js_div PInf PInf = NaN"
| "js_div PInf NInf = NaN"
| "js_div NInf PInf = NaN"
| "js_div NInf NInf = NaN"

text \<open>
  \<^verbatim>\<open>a % b\<close>: the remainder of the division truncated towards zero (the sign of the
  dividend); NaN when the divisor is zero or the dividend infinite; the dividend itself
  when only the divisor is infinite.
\<close>

definition js_trunc :: "real \<Rightarrow> real" where
  "js_trunc x = (if 0 \<le> x then of_int \<lfloor>x\<rfloor> else of_int \<lceil>x\<rceil>)"

fun js_mod :: "jsnum \<Rightarrow> jsnum \<Rightarrow> jsnum" where
  "js_mod (Fin a) (Fin b) = (if b = 0 then NaN else Fin (a - b * js_trunc (a / b)))"
| "js_mod NaN _ = NaN"
| "js_mod _ NaN = NaN"
| "js_mod PInf _ = NaN"
| "js_mod NInf _ = NaN"
| "js_mod (Fin a) PInf = Fin a"
| "js_mod (Fin a) NInf = Fin a"

text \<open>\<^verbatim>\<open>a < b\<close>: false as soon as one side is NaN.\<close>

fun js_lt :: "jsnum \<Rightarrow> jsnum \<Rightarrow> bool" where
  "js_lt (Fin a) (Fin b) = (a < b)"
| "js_lt NaN _ = False"
| "js_lt _ NaN = False"
| "js_lt _ NInf = False"
| "js_lt PInf _ = False"
| "js_lt NInf _ = True"
| "js_lt _ PInf = True"

text \<open>\<^verbatim>\<open>Math.max(a, b)\<close> and \<^verbatim>\<open>Math.min(a, b)\<close>: NaN as soon as one argument is NaN.\<close>

fun js_max :: "jsnum \<Rightarrow> jsnum \<Rightarrow> jsnum" where
  "js_max (Fin a) (Fin b) = Fin (max a b)"
| "js_max NaN _ = NaN"
| "js_max _ NaN = NaN"
| "js_max PInf _ = PInf"
| "js_max _ PInf = PInf"
| "js_max NInf b = b"
| "js_max a NInf = a"

fun js_min :: "jsnum \<Rightarrow> jsnum \<Rightarrow> jsnum" where
  "js_min (Fin a) (Fin b) = Fin (min a b)"
| "js_min NaN _ = NaN"
| "js_min _ NaN = NaN"
| "js_min NInf _ = NInf"
| "js_min _ NInf = NInf"
| "js_min PInf b = b"
| "js_min a PInf = a"

text \<open>
  \<^verbatim>\<open>Math.floor(a)\<close>, and \<^verbatim>\<open>Math.round(a)\<close>, which rounds halves upwards:
  \<open>\<lfloor>a + 1/2\<rfloor>\<close>. Both leave the infinities and NaN as they are.
\<close>

fun js_floor :: "jsnum \<Rightarrow> jsnum" where
  "js_floor (Fin a) = Fin (of_int \<lfloor>a\<rfloor>)"
| "js_floor x = x"

fun js_round :: "jsnum \<Rightarrow> jsnum" where
  "js_round (Fin a) = Fin (of_int \<lfloor>a + 1 / 2\<rfloor>)"
| "js_round x = x"

section \<open>The engine and its host\<close>

text \<open>
  The hardware clock as one call of the engine sees it: \<^verbatim>\<open>ctx.currentTime\<close>,
  \<^verbatim>\<open>ctx.baseLatency\<close> (undefined on hosts that do not report it) and \<^verbatim>\<open>ctx.state\<close>.
  The host updates them between turns of its event loop, so they are constant during one
  call.
\<close>

datatype ctx_state = CtxRunning | CtxSuspended | CtxInterrupted | CtxClosed

record clock =
  currentTime :: real
  baseLatency :: "real option"
  ctxState :: ctx_state

text \<open>
  One sound event, as \<^verbatim>\<open>_scheduleClick(beat, subdiv, time)\<close> hands it to the audio
  clock: the oscillator's frequency, the gain set at \<open>time\<close>, the stop time, and the
  \<^verbatim>\<open>setTimeout\<close> it registers for the beat callback (delay in ms and the beat index),
  if any.
\<close>

record click =
  click_beat :: jsnum
  click_subdiv :: jsnum
  click_time :: jsnum
  click_freq :: real
  click_gain :: jsnum
  click_stop :: jsnum
  click_onBeat :: "(jsnum \<times> jsnum) option"

text \<open>Calls the engine makes on its host, other than sound events and interval timers.\<close>

datatype host_call = NewAudioContext | CtxResume | CallOnStart | CallOnStop

text \<open>
  The fields of \<^verbatim>\<open>class Metronome\<close> (the source's leading underscores dropped), followed
  by what the engine has done to its host: the sound events scheduled so far, the interval
  timers it holds in the host's timer table, and its other calls. \<open>audioCtx\<close> tells
  whether \<^verbatim>\<open>_audioCtx\<close> is set; \<open>onStart\<close> and \<open>onStop\<close> tell whether
  js/mobile.js has installed its hooks; \<open>mobileHooked\<close> is the flag
  \<^verbatim>\<open>ctx._mobileHooked\<close>.
\<close>

record metronome =
  bpm :: jsnum
  beatsPerMeasure :: jsnum
  volume :: jsnum
  subdivision :: jsnum
  audioCtx :: bool
  intervalId :: "nat option"
  nextBeatTime :: jsnum
  currentBeat :: jsnum
  currentSubdiv :: jsnum
  onStart :: bool
  onStop :: bool
  mobileHooked :: bool
  clicks :: "click list"
  timers :: "nat list"
  calls :: "host_call list"

definition SCHEDULE_AHEAD_TIME :: real where
  "SCHEDULE_AHEAD_TIME = 0.1"

definition FREQ_ACCENT :: real where
  "FREQ_ACCENT = 1500"

definition FREQ_NORMAL :: real where
  "FREQ_NORMAL = 1000"

definition CLICK_DURATION :: real where
  "CLICK_DURATION = 0.03"

text \<open>The constructor.\<close>

definition new_metronome :: metronome where
  "new_metronome =
     \<lparr>bpm = Fin 120, beatsPerMeasure = Fin 4, volume = Fin 0.8, subdivision = Fin 1,
      audioCtx = False, intervalId = None, nextBeatTime = Fin 0, currentBeat = Fin 0,
      currentSubdiv = Fin 0, onStart = False, onStop = False, mobileHooked = False,
      clicks = [], timers = [], calls = []\<rparr>"

subsection \<open>Public API\<close>

definition set_bpm :: "jsnum \<Rightarrow> metronome \<Rightarrow> metronome" where
  "set_bpm v m = m\<lparr>bpm := js_min (Fin 300) (js_max (Fin 20) (js_round v))\<rparr>"

definition set_beatsPerMeasure :: "jsnum \<Rightarrow> metronome \<Rightarrow> metronome" where
  "set_beatsPerMeasure v m = m\<lparr>beatsPerMeasure := v, currentBeat := Fin 0\<rparr>"

definition set_volume :: "jsnum \<Rightarrow> metronome \<Rightarrow> metronome" where
  "set_volume v m = m\<lparr>volume := js_min (Fin 1) (js_max (Fin 0) v)\<rparr>"

definition set_subdivision :: "jsnum \<Rightarrow> metronome \<Rightarrow> metronome" where
  "set_subdivision v m =
     m\<lparr>subdivision := js_max (Fin 1) (js_floor v), currentSubdiv := Fin 0\<rparr>"

definition isRunning :: "metronome \<Rightarrow> bool" where
  "isRunning m = (intervalId m \<noteq> None)"

subsection \<open>Internal\<close>

definition ensureAudioContext :: "metronome \<Rightarrow> metronome" where
  "ensureAudioContext m =
     (if \<not> audioCtx m then m\<lparr>audioCtx := True, calls := calls m @ [NewAudioContext]\<rparr>
      else m)"

text \<open>
  \<^verbatim>\<open>_scheduleClick\<close> and \<^verbatim>\<open>_schedule\<close> work on the audio context. The engine calls
  them only where \<^verbatim>\<open>_audioCtx\<close> is set: in \<^verbatim>\<open>start()\<close> after
  \<^verbatim>\<open>_ensureAudioContext()\<close>, and from the timer of a running engine. The host is taken
  to provide the Web Audio API, so that the constructor of the context and the calls on its
  nodes return.
\<close>

definition scheduleClick :: "clock \<Rightarrow> jsnum \<Rightarrow> jsnum \<Rightarrow> jsnum \<Rightarrow> metronome \<Rightarrow> metronome" where
  "scheduleClick c beat subdiv time m =
     (let isAccent = (beat = Fin 0 \<and> subdiv = Fin 0);
          isBeat = (subdiv = Fin 0);
          freq = (if isAccent then FREQ_ACCENT else if isBeat then FREQ_NORMAL else 600);
          subdivVolume = (if isBeat then volume m else js_mul (volume m) (Fin 0.45));
          vol = js_max subdivVolume (Fin 0.0001);
          notify =
            (if subdiv = Fin 0
             then Some (js_max (Fin 0)
                          (js_mul (js_sub time (Fin (currentTime c))) (Fin 1000)), beat)
             else None)
      in m\<lparr>clicks := clicks m @
            [\<lparr>click_beat = beat, click_subdiv = subdiv, click_time = time,
              click_freq = freq, click_gain = vol,
              click_stop = js_add time (Fin CLICK_DURATION), click_onBeat = notify\<rparr>]\<rparr>)"

definition advanceBeat :: "metronome \<Rightarrow> metronome" where
  "advanceBeat m =
     (let m1 = m\<lparr>nextBeatTime :=
                  js_add (nextBeatTime m) (js_div (js_div (Fin 60) (bpm m)) (subdivision m))\<rparr>;
          m2 = m1\<lparr>currentSubdiv := js_mod (js_add (currentSubdiv m1) (Fin 1)) (subdivision m1)\<rparr>
      in if currentSubdiv m2 = Fin 0
         then m2\<lparr>currentBeat := js_mod (js_add (currentBeat m2) (Fin 1)) (beatsPerMeasure m2)\<rparr>
         else m2)"

text \<open>
  The \<^verbatim>\<open>while\<close> loop of \<^verbatim>\<open>_schedule\<close>. Nothing in the loop makes it stop when the
  timestamp does not advance, so it is a partial function: \<open>None\<close> is a pass that never
  returns.
\<close>

partial_function (option) schedule_loop :: "jsnum \<Rightarrow> clock \<Rightarrow> metronome \<Rightarrow> metronome option" where
  "schedule_loop scheduleUntil c m =
     (if js_lt (nextBeatTime m) scheduleUntil
      then schedule_loop scheduleUntil c
             (advanceBeat (scheduleClick c (currentBeat m) (currentSubdiv m) (nextBeatTime m) m))
      else Some m)"

definition schedule :: "clock \<Rightarrow> metronome \<Rightarrow> metronome option" where
  "schedule c m = schedule_loop (js_add (Fin (currentTime c)) (Fin SCHEDULE_AHEAD_TIME)) c m"

text \<open>\<^verbatim>\<open>ctx.baseLatency || 0.01\<close>: the default stands in for undefined and for zero.\<close>

definition latency_or_default :: "clock \<Rightarrow> real" where
  "latency_or_default c =
     (case baseLatency c of None \<Rightarrow> 0.01 | Some l \<Rightarrow> if l = 0 then 0.01 else l)"

text \<open>
  \<^verbatim>\<open>start()\<close>; \<open>h\<close> is the handle \<^verbatim>\<open>setInterval\<close> returns. \<^verbatim>\<open>stop()\<close>.
\<close>

definition start :: "clock \<Rightarrow> nat \<Rightarrow> metronome \<Rightarrow> metronome option" where
  "start c h m =
     (if isRunning m then Some m
      else
        let m1 = ensureAudioContext m;
            m2 = (if ctxState c = CtxSuspended then m1\<lparr>calls := calls m1 @ [CtxResume]\<rparr>
                  else m1);
            m3 = m2\<lparr>currentBeat := Fin 0, currentSubdiv := Fin 0,
                    nextBeatTime := js_add (Fin (currentTime c)) (Fin (latency_or_default c))\<rparr>
        in case schedule c m3 of
             None \<Rightarrow> None
           | Some m4 \<Rightarrow> Some (m4\<lparr>intervalId := Some h, timers := timers m4 @ [h]\<rparr>))"

definition stop :: "metronome \<Rightarrow> metronome" where
  "stop m =
     (if \<not> isRunning m then m
      else m\<lparr>timers := remove1 (the (intervalId m)) (timers m), intervalId := None\<rparr>)"

text \<open>The callback of the interval timer: it runs only while the engine holds the timer.\<close>

definition tick :: "clock \<Rightarrow> metronome \<Rightarrow> metronome option" where
  "tick c m = (if isRunning m then schedule c m else Some m)"

subsection \<open>Recovery (js/mobile.js)\<close>

definition recoverPlayback :: "clock \<Rightarrow> metronome \<Rightarrow> metronome" where
  "recoverPlayback c m =
     (if \<not> audioCtx m then m
      else
        let m1 = (if ctxState c = CtxSuspended \<or> ctxState c = CtxInterrupted
                  then m\<lparr>calls := calls m @ [CtxResume]\<rparr> else m)
        in if isRunning m1
           then m1\<lparr>nextBeatTime := js_add (Fin (currentTime c)) (Fin (latency_or_default c))\<rparr>
           else m1)"

definition hookAudioContextRecovery :: "metronome \<Rightarrow> metronome" where
  "hookAudioContextRecovery m =
     (if \<not> audioCtx m \<or> mobileHooked m then m else m\<lparr>mobileHooked := True\<rparr>)"

text \<open>
  The \<^verbatim>\<open>statechange\<close> listener that \<^verbatim>\<open>hookAudioContextRecovery\<close> registers, and
  the context's dispatch of the event: the listener runs only once it is registered.
\<close>

definition statechange_listener :: "clock \<Rightarrow> metronome \<Rightarrow> metronome" where
  "statechange_listener c m =
     (if ctxState c = CtxRunning \<and> isRunning m
      then m\<lparr>nextBeatTime := js_add (Fin (currentTime c)) (Fin (latency_or_default c))\<rparr>
      else m)"

definition on_statechange :: "clock \<Rightarrow> metronome \<Rightarrow> metronome" where
  "on_statechange c m = (if mobileHooked m then statechange_listener c m else m)"

text \<open>The \<^verbatim>\<open>visibilitychange\<close> listener; \<open>visible\<close> is \<^verbatim>\<open>document.visibilityState === 'visible'\<close>.\<close>

definition on_visibilitychange :: "bool \<Rightarrow> clock \<Rightarrow> metronome \<Rightarrow> metronome" where
  "on_visibilitychange visible c m =
     (if visible \<and> isRunning m then recoverPlayback c m else m)"

text \<open>
  \<^verbatim>\<open>initMobile\<close> assigns its two hooks to the engine (its listeners are the functions
  above; the wake lock and the silent audio element do not touch the engine).
\<close>

definition initMobile :: "metronome \<Rightarrow> metronome" where
  "initMobile m = m\<lparr>onStart := True, onStop := True\<rparr>"

section \<open>Runs of the engine\<close>

text \<open>
  Everything the page does to the engine, one turn of the event loop at a time: the setters,
  start and stop (js/ui.js), the interval timer's callback, and the listeners of
  js/mobile.js. \<open>HookRecovery\<close> is a call of \<^verbatim>\<open>hookAudioContextRecovery\<close>; the code
  makes it only from the \<^verbatim>\<open>onStart\<close> hook.
\<close>

datatype action =
    SetBpm jsnum
  | SetBeatsPerMeasure jsnum
  | SetVolume jsnum
  | SetSubdivision jsnum
  | EnsureAudioContext
  | InitMobile
  | Start clock nat
  | Stop
  | Tick clock
  | HookRecovery
  | StateChange clock
  | VisibilityChange bool clock

fun perform :: "action \<Rightarrow> metronome \<Rightarrow> metronome option" where
  "perform (SetBpm v) m = Some (set_bpm v m)"
| "perform (SetBeatsPerMeasure v) m = Some (set_beatsPerMeasure v m)"
| "perform (SetVolume v) m = Some (set_volume v m)"
| "perform (SetSubdivision v) m = Some (set_subdivision v m)"
| "perform EnsureAudioContext m = Some (ensureAudioContext m)"
| "perform InitMobile m = Some (initMobile m)"
| "perform (Start c h) m = start c h m"
| "perform Stop m = Some (stop m)"
| "perform (Tick c) m = tick c m"
| "perform HookRecovery m = Some (hookAudioContextRecovery m)"
| "perform (StateChange c) m = Some (on_statechange c m)"
| "perform (VisibilityChange v c) m = Some (on_visibilitychange v c m)"

fun run :: "action list \<Rightarrow> metronome \<Rightarrow> metronome option" where
  "run [] m = Some m"
| "run (a # as) m = (case perform a m of None \<Rightarrow> None | Some m' \<Rightarrow> run as m')"

definition reachable :: "metronome \<Rightarrow> bool" where
  "reachable m = (\<exists>as. run as new_metronome = Some m)"


text \<open>The actions that do not write the next-event timestamp from the clock.\<close>

fun no_anchor :: "action \<Rightarrow> bool" where
  "no_anchor (Start c h) = False"
| "no_anchor (StateChange c) = False"
| "no_anchor (VisibilityChange v c) = False"
| "no_anchor a = True"

text \<open>The body of the loop of \<^verbatim>\<open>_schedule\<close>, and the events added since the log had \<open>n\<close> entries.\<close>

definition loop_body :: "clock \<Rightarrow> metronome \<Rightarrow> metronome" where
  "loop_body c m =
     advanceBeat (scheduleClick c (currentBeat m) (currentSubdiv m) (nextBeatTime m) m)"

definition clicks_since :: "nat \<Rightarrow> metronome \<Rightarrow> click list" where
  "clicks_since n m = drop n (clicks m)"

text \<open>
  The limit of a pass, \<^verbatim>\<open>scheduleUntil\<close>, and what the loop of \<^verbatim>\<open>_schedule\<close> has done
  after at most \<open>n\<close> iterations, whether or not it ever ends.
\<close>

definition scheduleUntil :: "clock \<Rightarrow> jsnum" where
  "scheduleUntil c = js_add (Fin (currentTime c)) (Fin SCHEDULE_AHEAD_TIME)"

primrec pass_steps :: "nat \<Rightarrow> jsnum \<Rightarrow> clock \<Rightarrow> metronome \<Rightarrow> metronome" where
  "pass_steps 0 u c m = m"
| "pass_steps (Suc n) u c m =
     (let x = pass_steps n u c m in if js_lt (nextBeatTime x) u then loop_body c x else x)"


text \<open>A positive integer, and the subdivision interval \<open>(60 / tempo) / subdivision\<close> in seconds.\<close>

fun is_pos_int :: "jsnum \<Rightarrow> bool" where
  "is_pos_int (Fin r) = (0 < r \<and> of_int \<lfloor>r\<rfloor> = r)"
| "is_pos_int x = False"


text \<open>
  What the setters establish: the stored tempo is NaN or within 20 and 300, the stored
  subdivision is NaN, infinite or at least 1, and the next-event timestamp is finite or NaN.
\<close>

definition cfg_inv :: "metronome \<Rightarrow> bool" where
  "cfg_inv m =
     ((case bpm m of Fin b \<Rightarrow> 20 \<le> b \<and> b \<le> 300 | NaN \<Rightarrow> True | _ \<Rightarrow> False) \<and>
      (case subdivision m of Fin s \<Rightarrow> 1 \<le> s | NaN \<Rightarrow> True | PInf \<Rightarrow> True | NInf \<Rightarrow> False) \<and>
      (case nextBeatTime m of Fin t \<Rightarrow> True | NaN \<Rightarrow> True | _ \<Rightarrow> False))"



text \<open>
  Nothing is behind the anchor \<open>a\<close>: the next-event timestamp and the timestamps of
  the events since the log had \<open>base\<close> entries are not earlier than \<open>a\<close>.
\<close>

definition anchored :: "real \<Rightarrow> nat \<Rightarrow> metronome \<Rightarrow> bool" where
  "anchored a base m =
     (cfg_inv m \<and> base \<le> length (clicks m) \<and>
      (case nextBeatTime m of Fin t \<Rightarrow> a \<le> t | NaN \<Rightarrow> True | _ \<Rightarrow> False) \<and>
      (\<forall>e \<in> set (clicks_since base m). case click_time e of Fin t \<Rightarrow> a \<le> t | _ \<Rightarrow> False))"

text \<open>The state \<^verbatim>\<open>start()\<close> hands to its first scheduling pass.\<close>

definition start_prep :: "clock \<Rightarrow> metronome \<Rightarrow> metronome" where
  "start_prep c m =
     (let m1 = ensureAudioContext m;
          m2 = (if ctxState c = CtxSuspended then m1\<lparr>calls := calls m1 @ [CtxResume]\<rparr>
                else m1)
      in m2\<lparr>currentBeat := Fin 0, currentSubdiv := Fin 0,
             nextBeatTime := js_add (Fin (currentTime c)) (Fin (latency_or_default c))\<rparr>)"

text \<open>A running engine has its audio context, and holds exactly the timer it stores.\<close>

definition timer_inv :: "metronome \<Rightarrow> bool" where
  "timer_inv m =
     ((isRunning m \<longrightarrow> audioCtx m) \<and>
      timers m = (case intervalId m of None \<Rightarrow> [] | Some h \<Rightarrow> [h]))"

section \<open>Setters\<close>

text \<open>
  C10: for every tempo input, the tempo setter leaves the playback cursor as it is: the
  beat index, the subdivision index and the next-event timestamp keep their values.
\<close>

theorem C10_set_bpm_keeps_cursor:
  "currentBeat (set_bpm v m) = currentBeat m \<and>
   currentSubdiv (set_bpm v m) = currentSubdiv m \<and>
   nextBeatTime (set_bpm v m) = nextBeatTime m"
  by (simp add: set_bpm_def)

text \<open>
  C6, as the claim states it, fails between 0 and 1: the input 1/2 is positive, its floor
  is 0, and the setter stores 1.
\<close>

theorem C6_counterexample:
  "(0::real) < 1 / 2 \<and>
   subdivision (set_subdivision (Fin (1 / 2)) new_metronome) \<noteq> Fin (of_int \<lfloor>1 / 2 :: real\<rfloor>)"
  by (simp add: set_subdivision_def)

text \<open>
  C6, amended: for every finite subdivision input \<open>n\<close> below 1 (in particular every
  \<open>n \<le> 0\<close>) the setter stores 1, and for every \<open>n \<ge> 1\<close> it stores \<open>\<lfloor>n\<rfloor>\<close>.
\<close>

theorem C6_set_subdivision_stores:
  "subdivision (set_subdivision (Fin n) m) = Fin (if n < 1 then 1 else of_int \<lfloor>n\<rfloor>)"
proof (cases "n < 1")
  case True
  then have "\<lfloor>n\<rfloor> \<le> 0" by linarith
  then have "max 1 (real_of_int \<lfloor>n\<rfloor>) = 1" by simp
  with True show ?thesis by (simp add: set_subdivision_def)
next
  case False
  then have "1 \<le> \<lfloor>n\<rfloor>" by linarith
  then have "max 1 (real_of_int \<lfloor>n\<rfloor>) = of_int \<lfloor>n\<rfloor>" by simp
  with False show ?thesis by (simp add: set_subdivision_def)
qed

text \<open>
  C7, as the claim states it, fails: the meter setter stores the input 0, which is not a
  positive integer.
\<close>

theorem C7_counterexample:
  "\<not> is_pos_int (beatsPerMeasure (set_beatsPerMeasure (Fin 0) new_metronome))"
  by (simp add: set_beatsPerMeasure_def)

text \<open>
  C7, amended: for every input \<open>v\<close> the meter setter returns without an error, stores
  \<open>v\<close> as it is and resets the beat index to 0; so the stored beats-per-measure is a
  positive integer exactly when the input is one.
\<close>

theorem C7_set_beatsPerMeasure_stores:
  "perform (SetBeatsPerMeasure v) m = Some (set_beatsPerMeasure v m) \<and>
   beatsPerMeasure (set_beatsPerMeasure v m) = v \<and>
   currentBeat (set_beatsPerMeasure v m) = Fin 0 \<and>
   is_pos_int (beatsPerMeasure (set_beatsPerMeasure v m)) = is_pos_int v"
  by (simp add: set_beatsPerMeasure_def)

section \<open>Start and stop\<close>

lemma start_running: "isRunning m \<Longrightarrow> start c h m = Some m"
  by (simp add: start_def)

lemma start_Some_running: "start c h m = Some m' \<Longrightarrow> isRunning m'"
  by (auto simp: start_def isRunning_def Let_def split: if_splits option.splits)

lemma stop_not_running: "\<not> isRunning (stop m)"
  by (simp add: stop_def isRunning_def)

text \<open>
  C5: \<^verbatim>\<open>start()\<close> and \<^verbatim>\<open>stop()\<close> are idempotent. Calling start a second time,
  whatever the clock reads by then and whatever handle a timer would get, gives the state
  (so the event stream and the run state) the first call gave; a second stop gives the
  state of the first. On a running engine start changes nothing, and on a stopped engine
  stop changes nothing.
\<close>

theorem C5_start_stop_idempotent:
  "(case start c h m of None \<Rightarrow> None | Some m' \<Rightarrow> start c' h' m') = start c h m \<and>
   start c h (m\<lparr>intervalId := Some k\<rparr>) = Some (m\<lparr>intervalId := Some k\<rparr>) \<and>
   stop (stop m) = stop m \<and>
   stop (m\<lparr>intervalId := None\<rparr>) = m\<lparr>intervalId := None\<rparr>"
proof (intro conjI)
  show "start c h (m\<lparr>intervalId := Some k\<rparr>) = Some (m\<lparr>intervalId := Some k\<rparr>)"
    by (simp add: start_def isRunning_def)
  show "stop (m\<lparr>intervalId := None\<rparr>) = m\<lparr>intervalId := None\<rparr>"
    by (simp add: stop_def isRunning_def)
next
  show "(case start c h m of None \<Rightarrow> None | Some m' \<Rightarrow> start c' h' m') = start c h m"
  proof (cases "start c h m")
    case None
    then show ?thesis by simp
  next
    case (Some m')
    then have "isRunning m'" by (rule start_Some_running)
    then have "start c' h' m' = Some m'" by (rule start_running)
    with Some show ?thesis by simp
  qed
next
  have "\<not> isRunning (stop m)" by (rule stop_not_running)
  then show "stop (stop m) = stop m" by (simp add: stop_def)
qed

section \<open>The scheduling pass\<close>


lemma loop_body_frame:
  "bpm (loop_body c m) = bpm m"
  "beatsPerMeasure (loop_body c m) = beatsPerMeasure m"
  "volume (loop_body c m) = volume m"
  "subdivision (loop_body c m) = subdivision m"
  "audioCtx (loop_body c m) = audioCtx m"
  "intervalId (loop_body c m) = intervalId m"
  "onStart (loop_body c m) = onStart m"
  "onStop (loop_body c m) = onStop m"
  "mobileHooked (loop_body c m) = mobileHooked m"
  "timers (loop_body c m) = timers m"
  "calls (loop_body c m) = calls m"
  by (simp_all add: loop_body_def advanceBeat_def scheduleClick_def Let_def)

lemma loop_body_nextBeatTime:
  "nextBeatTime (loop_body c m) =
     js_add (nextBeatTime m) (js_div (js_div (Fin 60) (bpm m)) (subdivision m))"
  by (simp add: loop_body_def advanceBeat_def scheduleClick_def Let_def)



lemma loop_body_clicks:
  "clicks (loop_body c m) =
     clicks (scheduleClick c (currentBeat m) (currentSubdiv m) (nextBeatTime m) m)"
  by (simp add: loop_body_def advanceBeat_def Let_def)

lemma schedule_loop_invariant:
  assumes "schedule_loop u c m = Some m'"
    and "I m"
    and "\<And>x. I x \<Longrightarrow> js_lt (nextBeatTime x) u \<Longrightarrow> I (loop_body c x)"
  shows "I m' \<and> \<not> js_lt (nextBeatTime m') u"
proof -
  define P where "P = (\<lambda>u c m m'.
     I m \<longrightarrow> (\<forall>x. I x \<longrightarrow> js_lt (nextBeatTime x) u \<longrightarrow> I (loop_body c x)) \<longrightarrow>
     I m' \<and> \<not> js_lt (nextBeatTime m') u)"
  have "P u c m m'"
  proof (rule schedule_loop.raw_induct[where P = P, OF _ assms(1)])
    fix loop u c m y
    assume IH: "\<And>u c m y. loop u c m = Some y \<Longrightarrow> P u c m y"
      and eq: "(if js_lt (nextBeatTime m) u
                then loop u c (advanceBeat
                  (scheduleClick c (currentBeat m) (currentSubdiv m) (nextBeatTime m) m))
                else Some m) = Some y"
    show "P u c m y"
      unfolding P_def
    proof (intro impI)
      assume Im: "I m"
        and step: "\<forall>x. I x \<longrightarrow> js_lt (nextBeatTime x) u \<longrightarrow> I (loop_body c x)"
      show "I y \<and> \<not> js_lt (nextBeatTime y) u"
      proof (cases "js_lt (nextBeatTime m) u")
        case True
        with eq have "loop u c (loop_body c m) = Some y" by (simp add: loop_body_def)
        then have "P u c (loop_body c m) y" by (rule IH)
        moreover from step Im True have "I (loop_body c m)" by simp
        ultimately show ?thesis using step by (simp add: P_def)
      next
        case False
        with eq Im show ?thesis by simp
      qed
    qed
  qed
  with assms(2,3) show ?thesis by (simp add: P_def)
qed


lemma pass_steps_invariant:
  assumes "I m"
    and "\<And>x. I x \<Longrightarrow> js_lt (nextBeatTime x) u \<Longrightarrow> I (loop_body c x)"
  shows "I (pass_steps n u c m)"
proof (induction n)
  case 0
  from assms(1) show ?case by simp
next
  case (Suc n)
  show ?case
  proof (cases "js_lt (nextBeatTime (pass_steps n u c m)) u")
    case True
    with assms(2)[OF Suc True] show ?thesis by (simp add: Let_def)
  next
    case False
    with Suc show ?thesis by (simp add: Let_def)
  qed
qed



lemma schedule_loop_frame:
  assumes "schedule_loop u c m = Some m'"
  shows "bpm m' = bpm m \<and> beatsPerMeasure m' = beatsPerMeasure m \<and> volume m' = volume m \<and>
         subdivision m' = subdivision m \<and> audioCtx m' = audioCtx m \<and>
         intervalId m' = intervalId m \<and> onStart m' = onStart m \<and> onStop m' = onStop m \<and>
         mobileHooked m' = mobileHooked m \<and> timers m' = timers m \<and> calls m' = calls m"
proof -
  let ?I = "\<lambda>x. bpm x = bpm m \<and> beatsPerMeasure x = beatsPerMeasure m \<and> volume x = volume m \<and>
         subdivision x = subdivision m \<and> audioCtx x = audioCtx m \<and>
         intervalId x = intervalId m \<and> onStart x = onStart m \<and> onStop x = onStop m \<and>
         mobileHooked x = mobileHooked m \<and> timers x = timers m \<and> calls x = calls m"
  have "?I m' \<and> \<not> js_lt (nextBeatTime m') u"
    by (rule schedule_loop_invariant[OF assms, where I = ?I]) (simp_all add: loop_body_frame)
  then show ?thesis by simp
qed

lemma interval_cases:
  assumes "cfg_inv m"
  shows "js_div (js_div (Fin 60) (bpm m)) (subdivision m) = NaN \<or>
         (\<exists>x. js_div (js_div (Fin 60) (bpm m)) (subdivision m) = Fin x \<and> 0 \<le> x)"
proof (cases "bpm m")
  case (Fin b)
  with assms have b: "20 \<le> b" "b \<le> 300" by (simp_all add: cfg_inv_def)
  then have q: "js_div (Fin 60) (bpm m) = Fin (60 / b)" "0 < 60 / b" using Fin by simp_all
  show ?thesis
  proof (cases "subdivision m")
    case (Fin s)
    with assms have "1 \<le> s" by (simp add: cfg_inv_def)
    with q Fin show ?thesis by simp
  next
    case PInf
    with q show ?thesis by simp
  next
    case NInf
    with assms show ?thesis by (simp add: cfg_inv_def)
  next
    case NaN
    with q show ?thesis by simp
  qed
next
  case PInf
  with assms show ?thesis by (simp add: cfg_inv_def)
next
  case NInf
  with assms show ?thesis by (simp add: cfg_inv_def)
next
  case NaN
  then show ?thesis by simp
qed

lemma nextBeatTime_cases:
  assumes "cfg_inv m"
  shows "nextBeatTime m = NaN \<or> (\<exists>t. nextBeatTime m = Fin t)"
  using assms by (cases "nextBeatTime m") (simp_all add: cfg_inv_def)

lemma loop_body_cfg_inv:
  assumes "cfg_inv m"
  shows "cfg_inv (loop_body c m)"
proof -
  from interval_cases[OF assms] nextBeatTime_cases[OF assms]
  have "nextBeatTime (loop_body c m) = NaN \<or> (\<exists>t. nextBeatTime (loop_body c m) = Fin t)"
    by (auto simp: loop_body_nextBeatTime)
  with assms show ?thesis
    by (auto simp: cfg_inv_def loop_body_frame)
qed

lemma schedule_loop_cfg_inv:
  assumes "schedule_loop u c m = Some m'" and "cfg_inv m"
  shows "cfg_inv m'"
  using schedule_loop_invariant[OF assms(1), where I = cfg_inv] assms(2)
  by (simp add: loop_body_cfg_inv)

lemma start_unfold:
  assumes "\<not> isRunning m"
  shows "start c h m =
     (case schedule c (start_prep c m) of
        None \<Rightarrow> None
      | Some m4 \<Rightarrow> Some (m4\<lparr>intervalId := Some h, timers := timers m4 @ [h]\<rparr>))"
  using assms by (simp add: start_def start_prep_def Let_def)

lemma start_prep_fields:
  "bpm (start_prep c m) = bpm m"
  "beatsPerMeasure (start_prep c m) = beatsPerMeasure m"
  "volume (start_prep c m) = volume m"
  "subdivision (start_prep c m) = subdivision m"
  "audioCtx (start_prep c m) = True"
  "intervalId (start_prep c m) = intervalId m"
  "timers (start_prep c m) = timers m"
  "clicks (start_prep c m) = clicks m"
  "currentBeat (start_prep c m) = Fin 0"
  "currentSubdiv (start_prep c m) = Fin 0"
  "nextBeatTime (start_prep c m) = Fin (currentTime c + latency_or_default c)"
  by (simp_all add: start_prep_def ensureAudioContext_def Let_def)

lemma clicks_since_snoc:
  "base \<le> length (clicks m) \<Longrightarrow> clicks m' = clicks m @ [e] \<Longrightarrow>
     clicks_since base m' = clicks_since base m @ [e]"
  by (simp add: clicks_since_def)

lemma loop_body_click:
  "\<exists>e. clicks (loop_body c m) = clicks m @ [e] \<and> click_beat e = currentBeat m \<and>
       click_subdiv e = currentSubdiv m \<and> click_time e = nextBeatTime m \<and>
       map_option snd (click_onBeat e) =
         (if currentSubdiv m = Fin 0 then Some (currentBeat m) else None)"
  by (simp add: loop_body_clicks scheduleClick_def Let_def)

lemma loop_body_anchored:
  assumes "anchored a base m" and "js_lt (nextBeatTime m) u"
  shows "anchored a base (loop_body c m)"
proof -
  from assms(1) have cfg: "cfg_inv m" and base: "base \<le> length (clicks m)"
    and old: "\<forall>e \<in> set (clicks_since base m). case click_time e of Fin t \<Rightarrow> a \<le> t | _ \<Rightarrow> False"
    by (simp_all add: anchored_def)
  from nextBeatTime_cases[OF cfg] assms(2) obtain t where t: "nextBeatTime m = Fin t"
    by auto
  with assms(1) have at: "a \<le> t" by (simp add: anchored_def)
  obtain e where e: "clicks (loop_body c m) = clicks m @ [e]" "click_time e = nextBeatTime m"
    using loop_body_click[of c m] by blast
  from clicks_since_snoc[OF base e(1)]
  have cs: "clicks_since base (loop_body c m) = clicks_since base m @ [e]" .
  have new: "\<forall>e \<in> set (clicks_since base (loop_body c m)).
               case click_time e of Fin t \<Rightarrow> a \<le> t | _ \<Rightarrow> False"
    using old e(2) t at by (simp add: cs)
  have nb: "case nextBeatTime (loop_body c m) of Fin t \<Rightarrow> a \<le> t | NaN \<Rightarrow> True | _ \<Rightarrow> False"
    using interval_cases[OF cfg] t at by (auto simp: loop_body_nextBeatTime)
  from base e(1) have "base \<le> length (clicks (loop_body c m))" by simp
  with new nb loop_body_cfg_inv[OF cfg] show ?thesis by (simp add: anchored_def)
qed





lemma pass_steps_anchored:
  assumes "anchored a base m"
  shows "anchored a base (pass_steps n u c m)"
  using assms by (rule pass_steps_invariant) (rule loop_body_anchored)

text \<open>
  With an interval of zero the timestamp never advances: a pass that finds the cursor inside
  its window does not return. A stored subdivision of \<open>+\<infinity>\<close> gives that interval.
\<close>

lemma schedule_loop_diverges:
  assumes "js_div (js_div (Fin 60) (bpm m)) (subdivision m) = Fin 0"
    and "nextBeatTime m = Fin t" and "t < u"
  shows "schedule_loop (Fin u) c m = None"
proof (cases "schedule_loop (Fin u) c m")
  case None
  then show ?thesis .
next
  case (Some m')
  let ?I = "\<lambda>x. js_div (js_div (Fin 60) (bpm x)) (subdivision x) = Fin 0 \<and> nextBeatTime x = Fin t"
  have "?I m' \<and> \<not> js_lt (nextBeatTime m') (Fin u)"
    by (rule schedule_loop_invariant[OF Some, where I = ?I])
      (use assms(1,2) in \<open>auto simp: loop_body_frame loop_body_nextBeatTime\<close>)
  then have "nextBeatTime m' = Fin t" and "\<not> js_lt (nextBeatTime m') (Fin u)" by blast+
  then have "\<not> t < u" by simp
  with assms(3) have False by simp
  then show ?thesis ..
qed

lemma start_infinite_subdivision:
  "run [SetSubdivision PInf, Start \<lparr>currentTime = 0, baseLatency = None, ctxState = CtxRunning\<rparr> 7]
     new_metronome = None"
proof -
  let ?c = "\<lparr>currentTime = 0, baseLatency = None, ctxState = CtxRunning\<rparr>"
  let ?m = "set_subdivision PInf new_metronome"
  have "schedule_loop (Fin (1 / 10)) ?c (start_prep ?c ?m) = None"
    by (rule schedule_loop_diverges[where t = "1 / 100"])
      (simp_all add: start_prep_fields set_subdivision_def new_metronome_def latency_or_default_def)
  then have "schedule ?c (start_prep ?c ?m) = None"
    by (simp add: schedule_def SCHEDULE_AHEAD_TIME_def)
  moreover have "\<not> isRunning ?m" by (simp add: isRunning_def set_subdivision_def new_metronome_def)
  ultimately show ?thesis by (simp add: start_unfold)
qed

lemma start_prep_cfg_inv: "cfg_inv m \<Longrightarrow> cfg_inv (start_prep c m)"
  by (simp add: cfg_inv_def start_prep_fields)

lemma set_bpm_cfg_inv: "cfg_inv m \<Longrightarrow> cfg_inv (set_bpm v m)"
  by (cases v) (simp_all add: cfg_inv_def set_bpm_def)

lemma set_subdivision_cfg_inv: "cfg_inv m \<Longrightarrow> cfg_inv (set_subdivision v m)"
  by (cases v) (simp_all add: cfg_inv_def set_subdivision_def)

lemma perform_cfg_inv:
  assumes "cfg_inv m" and "perform a m = Some m'"
  shows "cfg_inv m'"
proof (cases a)
  case (SetBpm v)
  with assms show ?thesis by (auto simp: set_bpm_cfg_inv)
next
  case (SetBeatsPerMeasure v)
  with assms show ?thesis by (auto simp: cfg_inv_def set_beatsPerMeasure_def)
next
  case (SetVolume v)
  with assms show ?thesis by (auto simp: cfg_inv_def set_volume_def)
next
  case (SetSubdivision v)
  with assms show ?thesis by (auto simp: set_subdivision_cfg_inv)
next
  case EnsureAudioContext
  with assms show ?thesis by (auto simp: cfg_inv_def ensureAudioContext_def)
next
  case InitMobile
  with assms show ?thesis by (auto simp: cfg_inv_def initMobile_def)
next
  case (Start c h)
  show ?thesis
  proof (cases "isRunning m")
    case True
    with assms Start show ?thesis by (simp add: start_running)
  next
    case False
    with assms(2) Start obtain m4 where m4: "schedule c (start_prep c m) = Some m4"
      and m': "m' = m4\<lparr>intervalId := Some h, timers := timers m4 @ [h]\<rparr>"
      by (auto simp: start_unfold split: option.splits)
    from m4 have "cfg_inv m4"
      unfolding schedule_def
      by (rule schedule_loop_cfg_inv) (rule start_prep_cfg_inv[OF assms(1)])
    with m' show ?thesis by (simp add: cfg_inv_def)
  qed
next
  case Stop
  with assms show ?thesis by (auto simp: cfg_inv_def stop_def)
next
  case (Tick c)
  show ?thesis
  proof (cases "isRunning m")
    case True
    with assms(2) Tick have "schedule_loop (js_add (Fin (currentTime c)) (Fin SCHEDULE_AHEAD_TIME)) c m = Some m'"
      by (simp add: tick_def schedule_def)
    then show ?thesis using assms(1) by (rule schedule_loop_cfg_inv)
  next
    case False
    with assms Tick show ?thesis by (simp add: tick_def)
  qed
next
  case HookRecovery
  with assms show ?thesis by (auto simp: cfg_inv_def hookAudioContextRecovery_def)
next
  case (StateChange c)
  with assms show ?thesis
    by (auto simp: cfg_inv_def on_statechange_def statechange_listener_def split: if_splits)
next
  case (VisibilityChange v c)
  with assms show ?thesis
    by (auto simp: cfg_inv_def on_visibilitychange_def recoverPlayback_def Let_def)
qed

lemma perform_timer_inv:
  assumes "timer_inv m" and "perform a m = Some m'"
  shows "timer_inv m'"
proof (cases a)
  case (SetBpm v)
  with assms show ?thesis by (auto simp: timer_inv_def isRunning_def set_bpm_def)
next
  case (SetBeatsPerMeasure v)
  with assms show ?thesis by (auto simp: timer_inv_def isRunning_def set_beatsPerMeasure_def)
next
  case (SetVolume v)
  with assms show ?thesis by (auto simp: timer_inv_def isRunning_def set_volume_def)
next
  case (SetSubdivision v)
  with assms show ?thesis by (auto simp: timer_inv_def isRunning_def set_subdivision_def)
next
  case EnsureAudioContext
  with assms show ?thesis by (auto simp: timer_inv_def isRunning_def ensureAudioContext_def)
next
  case InitMobile
  with assms show ?thesis by (auto simp: timer_inv_def isRunning_def initMobile_def)
next
  case (Start c h)
  show ?thesis
  proof (cases "isRunning m")
    case True
    with assms Start show ?thesis by (simp add: start_running)
  next
    case False
    with assms(2) Start obtain m4 where m4: "schedule c (start_prep c m) = Some m4"
      and m': "m' = m4\<lparr>intervalId := Some h, timers := timers m4 @ [h]\<rparr>"
      by (auto simp: start_unfold split: option.splits)
    from m4 have "audioCtx m4 = True" "timers m4 = timers m"
      using schedule_loop_frame[of _ c "start_prep c m" m4]
      by (simp_all add: schedule_def start_prep_fields)
    moreover from False assms(1) have "timers m = []"
      by (simp add: timer_inv_def isRunning_def)
    ultimately show ?thesis using m' by (simp add: timer_inv_def isRunning_def)
  qed
next
  case Stop
  with assms show ?thesis by (auto simp: timer_inv_def isRunning_def stop_def)
next
  case (Tick c)
  show ?thesis
  proof (cases "isRunning m")
    case True
    with assms(2) Tick have "schedule_loop (js_add (Fin (currentTime c)) (Fin SCHEDULE_AHEAD_TIME)) c m = Some m'"
      by (simp add: tick_def schedule_def)
    from schedule_loop_frame[OF this] assms(1) show ?thesis
      by (simp add: timer_inv_def isRunning_def)
  next
    case False
    with assms Tick show ?thesis by (simp add: tick_def)
  qed
next
  case HookRecovery
  with assms show ?thesis by (auto simp: timer_inv_def isRunning_def hookAudioContextRecovery_def)
next
  case (StateChange c)
  with assms show ?thesis
    by (auto simp: timer_inv_def isRunning_def on_statechange_def statechange_listener_def
        split: if_splits)
next
  case (VisibilityChange v c)
  with assms show ?thesis
    by (auto simp: timer_inv_def isRunning_def on_visibilitychange_def recoverPlayback_def Let_def)
qed

lemma run_invariant:
  assumes "run as m = Some m'" and "I m"
    and "\<And>a x y. a \<in> set as \<Longrightarrow> I x \<Longrightarrow> perform a x = Some y \<Longrightarrow> I y"
  shows "I m'"
  using assms
proof (induction as arbitrary: m)
  case Nil
  then show ?case by simp
next
  case (Cons a as)
  from Cons.prems(1) obtain x where x: "perform a m = Some x" and r: "run as x = Some m'"
    by (auto split: option.splits)
  from Cons.prems(3)[OF _ Cons.prems(2) x] have Ix: "I x" by simp
  have "\<And>b x y. b \<in> set as \<Longrightarrow> I x \<Longrightarrow> perform b x = Some y \<Longrightarrow> I y"
    using Cons.prems(3) by (meson list.set_intros(2))
  with r Ix show ?case by (rule Cons.IH)
qed

lemma reachable_invs:
  assumes "reachable m"
  shows "cfg_inv m \<and> timer_inv m"
proof -
  from assms obtain as where r: "run as new_metronome = Some m" by (auto simp: reachable_def)
  have "cfg_inv new_metronome \<and> timer_inv new_metronome"
    by (simp add: cfg_inv_def timer_inv_def isRunning_def new_metronome_def)
  with r show ?thesis
    by (rule run_invariant) (auto intro: perform_cfg_inv perform_timer_inv)
qed

section \<open>Run state and hooks\<close>

lemma run_append:
  "run (as @ bs) m = (case run as m of None \<Rightarrow> None | Some x \<Rightarrow> run bs x)"
  by (induction as arbitrary: m) (simp_all split: option.splits)

lemma reachable_perform:
  assumes "reachable m" and "perform a m = Some m'"
  shows "reachable m'"
proof -
  from assms(1) obtain as where "run as new_metronome = Some m" by (auto simp: reachable_def)
  with assms(2) have "run (as @ [a]) new_metronome = Some m'" by (simp add: run_append)
  then show ?thesis unfolding reachable_def by blast
qed

lemma timer_inv_running: "timer_inv m \<Longrightarrow> isRunning m \<longleftrightarrow> timers m \<noteq> []"
  by (auto simp: timer_inv_def isRunning_def split: option.splits)

text \<open>
  C9, as the claim states it, fails where \<^verbatim>\<open>start()\<close> never returns: the subdivision
  setter stores \<open>+\<infinity>\<close>, the interval is then 0, and the first pass of the start that
  follows does not end, so that start does not make the engine running.
\<close>

theorem C9_counterexample:
  "run [SetSubdivision PInf] new_metronome = Some (set_subdivision PInf new_metronome) \<and>
   subdivision (set_subdivision PInf new_metronome) = PInf \<and>
   start \<lparr>currentTime = 0, baseLatency = None, ctxState = CtxRunning\<rparr> 7
     (set_subdivision PInf new_metronome) = None"
proof -
  let ?c = "\<lparr>currentTime = 0, baseLatency = None, ctxState = CtxRunning\<rparr>"
  have "start ?c 7 (set_subdivision PInf new_metronome) = None"
  proof (cases "start ?c 7 (set_subdivision PInf new_metronome)")
    case None
    then show ?thesis .
  next
    case (Some x)
    then have "run [SetSubdivision PInf, Start ?c 7] new_metronome = Some x" by simp
    with start_infinite_subdivision show ?thesis by simp
  qed
  then show ?thesis by (simp add: set_subdivision_def)
qed

text \<open>
  C9, amended: in every reachable state the running flag is true exactly when the stored
  interval handle is set, which is exactly when the engine holds a polling timer in the
  host's timer table; every operation that returns leads to a state where this holds again.
  The four setters leave the run state as it is, a \<^verbatim>\<open>start()\<close> that returns leaves the
  engine running (on a running engine it returns at once), and \<^verbatim>\<open>stop()\<close> leaves it
  stopped.
\<close>

theorem C9_running_iff_timer:
  assumes "reachable m"
  shows "(isRunning m \<longleftrightarrow> intervalId m \<noteq> None) \<and> (isRunning m \<longleftrightarrow> timers m \<noteq> []) \<and>
         (\<forall>a m'. perform a m = Some m' \<longrightarrow> reachable m' \<and> (isRunning m' \<longleftrightarrow> timers m' \<noteq> [])) \<and>
         isRunning (set_bpm v m) = isRunning m \<and>
         isRunning (set_beatsPerMeasure v m) = isRunning m \<and>
         isRunning (set_subdivision v m) = isRunning m \<and>
         isRunning (set_volume v m) = isRunning m \<and>
         (\<forall>m'. start c h m = Some m' \<longrightarrow> isRunning m') \<and>
         (isRunning m \<longrightarrow> start c h m = Some m) \<and>
         \<not> isRunning (stop m)"
proof (intro conjI allI impI)
  show "isRunning m \<longleftrightarrow> intervalId m \<noteq> None" by (simp add: isRunning_def)
  from reachable_invs[OF assms] show "isRunning m \<longleftrightarrow> timers m \<noteq> []"
    by (simp add: timer_inv_running)
next
  fix a m' assume p: "perform a m = Some m'"
  with assms show r: "reachable m'" by (rule reachable_perform)
  from reachable_invs[OF r] show "isRunning m' \<longleftrightarrow> timers m' \<noteq> []"
    by (simp add: timer_inv_running)
next
  show "isRunning (set_bpm v m) = isRunning m" by (simp add: isRunning_def set_bpm_def)
  show "isRunning (set_beatsPerMeasure v m) = isRunning m"
    by (simp add: isRunning_def set_beatsPerMeasure_def)
  show "isRunning (set_subdivision v m) = isRunning m"
    by (simp add: isRunning_def set_subdivision_def)
  show "isRunning (set_volume v m) = isRunning m" by (simp add: isRunning_def set_volume_def)
  show "\<not> isRunning (stop m)" by (rule stop_not_running)
next
  fix m' assume "start c h m = Some m'"
  then show "isRunning m'" by (rule start_Some_running)
next
  assume "isRunning m"
  then show "start c h m = Some m" by (rule start_running)
qed

text \<open>
  A first \<^verbatim>\<open>start()\<close> on a new engine, with the clock at 0 and no latency reported:
  one accent click at 0.01 s, and the cursor on beat 1 at 0.51 s.
\<close>

lemma start_example:
  "start \<lparr>currentTime = 0, baseLatency = None, ctxState = CtxRunning\<rparr> 7 new_metronome =
     Some (new_metronome\<lparr>audioCtx := True, intervalId := Some 7, nextBeatTime := Fin (51 / 100),
       currentBeat := Fin 1,
       clicks := [\<lparr>click_beat = Fin 0, click_subdiv = Fin 0, click_time = Fin (1 / 100),
                   click_freq = 1500, click_gain = Fin (4 / 5), click_stop = Fin (1 / 25),
                   click_onBeat = Some (Fin 10, Fin 0)\<rparr>],
       timers := [7], calls := [NewAudioContext]\<rparr>)"
  by (simp add: start_def new_metronome_def isRunning_def ensureAudioContext_def schedule_def
      schedule_loop.simps latency_or_default_def SCHEDULE_AHEAD_TIME_def advanceBeat_def
      scheduleClick_def Let_def FREQ_ACCENT_def CLICK_DURATION_def js_sub_def js_trunc_def)

text \<open>
  The invariant of C9 at the state a first start of a new engine returns: that start makes
  the engine running, and the stop that follows makes it stopped.
\<close>

theorem C9_witness:
  "\<exists>m. start \<lparr>currentTime = 0, baseLatency = None, ctxState = CtxRunning\<rparr> 7 new_metronome = Some m \<and>
       reachable m \<and> isRunning m \<and> timers m \<noteq> [] \<and> \<not> isRunning (stop m)"
proof -
  let ?c = "\<lparr>currentTime = 0, baseLatency = None, ctxState = CtxRunning\<rparr>"
  obtain m where m: "start ?c 7 new_metronome = Some m" using start_example by blast
  then have "run [Start ?c 7] new_metronome = Some m" by simp
  then have r: "reachable m" unfolding reachable_def by blast
  have "isRunning m" using m by (rule start_Some_running)
  with C9_running_iff_timer[OF r, of "Fin 100" ?c 7] have "timers m \<noteq> []" "\<not> isRunning (stop m)"
    by simp_all
  with m r \<open>isRunning m\<close> show ?thesis by blast
qed

text \<open>
  C8: \<^verbatim>\<open>start()\<close> and \<^verbatim>\<open>stop()\<close> should invoke the hooks \<^verbatim>\<open>onStart\<close> and
  \<^verbatim>\<open>onStop\<close> that js/mobile.js installs. They do not: with both hooks installed, a
  start that takes the engine from stopped to running calls nothing but the constructor of
  the audio context, and the stop that follows calls nothing at all.
\<close>

theorem C8_hooks_not_invoked:
  "map_option calls
     (run [InitMobile, Start \<lparr>currentTime = 0, baseLatency = None, ctxState = CtxRunning\<rparr> 7]
        new_metronome) = Some [NewAudioContext] \<and>
   map_option onStart
     (run [InitMobile, Start \<lparr>currentTime = 0, baseLatency = None, ctxState = CtxRunning\<rparr> 7]
        new_metronome) = Some True \<and>
   map_option isRunning
     (run [InitMobile, Start \<lparr>currentTime = 0, baseLatency = None, ctxState = CtxRunning\<rparr> 7]
        new_metronome) = Some True \<and>
   map_option calls
     (run [InitMobile, Start \<lparr>currentTime = 0, baseLatency = None, ctxState = CtxRunning\<rparr> 7, Stop]
        new_metronome) = Some [NewAudioContext] \<and>
   map_option onStop
     (run [InitMobile, Start \<lparr>currentTime = 0, baseLatency = None, ctxState = CtxRunning\<rparr> 7, Stop]
        new_metronome) = Some True \<and>
   map_option isRunning
     (run [InitMobile, Start \<lparr>currentTime = 0, baseLatency = None, ctxState = CtxRunning\<rparr> 7, Stop]
        new_metronome) = Some False"
  by (simp add: initMobile_def stop_def start_def new_metronome_def isRunning_def ensureAudioContext_def schedule_def
      schedule_loop.simps latency_or_default_def SCHEDULE_AHEAD_TIME_def advanceBeat_def
      scheduleClick_def Let_def FREQ_ACCENT_def CLICK_DURATION_def js_sub_def js_trunc_def)

section \<open>Pitch and gain of an event\<close>

text \<open>
  C3, as the claim states it, fails at volume 0: the gain of a subdivision click is floored
  at 0.0001, which is not the configured volume times the ratio 0.45.
\<close>

theorem C3_counterexample:
  "audioCtx (ensureAudioContext (set_volume (Fin 0) new_metronome)) \<and>
   volume (ensureAudioContext (set_volume (Fin 0) new_metronome)) = Fin 0 \<and>
   click_gain (last (clicks (scheduleClick
       \<lparr>currentTime = 0, baseLatency = None, ctxState = CtxRunning\<rparr>
       (Fin 0) (Fin 1) (Fin 0) (ensureAudioContext (set_volume (Fin 0) new_metronome))))) =
     Fin (1 / 10000) \<and>
   js_mul (volume (ensureAudioContext (set_volume (Fin 0) new_metronome))) (Fin (45 / 100)) = Fin 0"
  by (simp add: set_volume_def new_metronome_def ensureAudioContext_def scheduleClick_def Let_def)

text \<open>
  C3, amended: every call of \<^verbatim>\<open>_scheduleClick\<close> emits one event. At beat 0 and
  subdivision 0 it has the accent pitch, the highest; at subdivision 0 and another beat the
  ordinary beat pitch; at a subdivision index above 0 the lowest pitch, 600 Hz, and the
  gain \<open>max (volume \<times> 0.45) 0.0001\<close>, which is \<open>volume \<times> 0.45\<close> for every configured
  volume from 1/4500 up.
\<close>

theorem C3_accent_placement:
  assumes "audioCtx m"
  shows "\<exists>e. clicks (scheduleClick c beat subdiv time m) = clicks m @ [e] \<and>
       click_beat e = beat \<and> click_subdiv e = subdiv \<and> click_time e = time \<and>
       (beat = Fin 0 \<and> subdiv = Fin 0 \<longrightarrow> click_freq e = FREQ_ACCENT) \<and>
       (beat \<noteq> Fin 0 \<and> subdiv = Fin 0 \<longrightarrow> click_freq e = FREQ_NORMAL) \<and>
       (js_lt (Fin 0) subdiv \<longrightarrow>
          click_freq e = 600 \<and>
          click_gain e = js_max (js_mul (volume m) (Fin 0.45)) (Fin 0.0001)) \<and>
       (\<forall>v. js_lt (Fin 0) subdiv \<and> volume m = Fin v \<and> 1 / 4500 \<le> v \<longrightarrow>
          click_gain e = Fin (v * 0.45)) \<and>
       600 < FREQ_NORMAL \<and> FREQ_NORMAL < FREQ_ACCENT"
proof -
  have pos: "js_lt (Fin 0) subdiv \<Longrightarrow> subdiv \<noteq> Fin 0"
    by (cases subdiv) auto
  have "\<And>v::real. 1 / 4500 \<le> v \<Longrightarrow> max (v * 0.45) 0.0001 = v * 0.45"
    by (simp add: max_def)
  then show ?thesis
    using pos by (auto simp: scheduleClick_def Let_def FREQ_NORMAL_def FREQ_ACCENT_def)
qed

text \<open>C3 at an accent, an ordinary beat and a subdivision click of a new engine (volume 0.8).\<close>

theorem C3_witness:
  "click_freq (last (clicks (scheduleClick \<lparr>currentTime = 0, baseLatency = None, ctxState = CtxRunning\<rparr>
       (Fin 0) (Fin 0) (Fin 1) (ensureAudioContext new_metronome)))) = 1500 \<and>
   click_freq (last (clicks (scheduleClick \<lparr>currentTime = 0, baseLatency = None, ctxState = CtxRunning\<rparr>
       (Fin 2) (Fin 0) (Fin 1) (ensureAudioContext new_metronome)))) = 1000 \<and>
   click_freq (last (clicks (scheduleClick \<lparr>currentTime = 0, baseLatency = None, ctxState = CtxRunning\<rparr>
       (Fin 2) (Fin 1) (Fin 1) (ensureAudioContext new_metronome)))) = 600 \<and>
   click_gain (last (clicks (scheduleClick \<lparr>currentTime = 0, baseLatency = None, ctxState = CtxRunning\<rparr>
       (Fin 2) (Fin 1) (Fin 1) (ensureAudioContext new_metronome)))) = Fin (36 / 100)"
proof -
  let ?c = "\<lparr>currentTime = 0, baseLatency = None, ctxState = CtxRunning\<rparr>"
  let ?m = "ensureAudioContext new_metronome"
  have ctx: "audioCtx ?m" by (simp add: ensureAudioContext_def new_metronome_def)
  have v: "volume ?m = Fin (4 / 5)" "(1::real) / 4500 \<le> 4 / 5"
    by (simp_all add: ensureAudioContext_def new_metronome_def)
  from C3_accent_placement[OF ctx, of ?c "Fin 0" "Fin 0" "Fin 1"]
  have a: "click_freq (last (clicks (scheduleClick ?c (Fin 0) (Fin 0) (Fin 1) ?m))) = 1500"
    by (auto simp: FREQ_ACCENT_def)
  from C3_accent_placement[OF ctx, of ?c "Fin 2" "Fin 0" "Fin 1"]
  have b: "click_freq (last (clicks (scheduleClick ?c (Fin 2) (Fin 0) (Fin 1) ?m))) = 1000"
    by (auto simp: FREQ_NORMAL_def)
  from C3_accent_placement[OF ctx, of ?c "Fin 2" "Fin 1" "Fin 1"] v
  have d: "click_freq (last (clicks (scheduleClick ?c (Fin 2) (Fin 1) (Fin 1) ?m))) = 600"
    "click_gain (last (clicks (scheduleClick ?c (Fin 2) (Fin 1) (Fin 1) ?m))) = Fin (36 / 100)"
    by auto
  from a b d show ?thesis by simp
qed

section \<open>The size of a pass\<close>





section \<open>Recovery\<close>

lemma schedule_loop_anchored:
  assumes "schedule_loop u c m = Some m'" and "anchored a base m"
  shows "anchored a base m'"
  using schedule_loop_invariant[OF assms(1), where I = "anchored a base"] assms(2)
  by (simp add: loop_body_anchored)

lemma perform_anchored:
  assumes "anchored a base m" and "no_anchor act" and "perform act m = Some m'"
  shows "anchored a base m'"
proof (cases act)
  case (Tick c)
  show ?thesis
  proof (cases "isRunning m")
    case True
    with assms(3) Tick have "schedule_loop (js_add (Fin (currentTime c)) (Fin SCHEDULE_AHEAD_TIME)) c m = Some m'"
      by (simp add: tick_def schedule_def)
    then show ?thesis using assms(1) by (rule schedule_loop_anchored)
  next
    case False
    with assms Tick show ?thesis by (simp add: tick_def)
  qed
next
  case (SetBpm v)
  with assms(3) have m': "m' = set_bpm v m" by simp
  from assms(1) have "cfg_inv m" by (simp add: anchored_def)
  then have "cfg_inv m'" unfolding m' by (rule set_bpm_cfg_inv)
  with assms(1) show ?thesis by (simp add: anchored_def clicks_since_def m' set_bpm_def)
next
  case (SetSubdivision v)
  with assms(3) have m': "m' = set_subdivision v m" by simp
  from assms(1) have "cfg_inv m" by (simp add: anchored_def)
  then have "cfg_inv m'" unfolding m' by (rule set_subdivision_cfg_inv)
  with assms(1) show ?thesis by (simp add: anchored_def clicks_since_def m' set_subdivision_def)
next
  case (SetBeatsPerMeasure v)
  with assms(1,3) show ?thesis
    by (auto simp: anchored_def cfg_inv_def clicks_since_def set_beatsPerMeasure_def)
next
  case (SetVolume v)
  with assms(1,3) show ?thesis
    by (auto simp: anchored_def cfg_inv_def clicks_since_def set_volume_def)
next
  case EnsureAudioContext
  with assms(1,3) show ?thesis
    by (auto simp: anchored_def cfg_inv_def clicks_since_def ensureAudioContext_def split: if_splits)
next
  case InitMobile
  with assms(1,3) show ?thesis
    by (auto simp: anchored_def cfg_inv_def clicks_since_def initMobile_def)
next
  case Stop
  with assms(1,3) show ?thesis
    by (auto simp: anchored_def cfg_inv_def clicks_since_def stop_def split: if_splits)
next
  case HookRecovery
  with assms(1,3) show ?thesis
    by (auto simp: anchored_def cfg_inv_def clicks_since_def hookAudioContextRecovery_def split: if_splits)
next
  case (Start c h)
  with assms(2) show ?thesis by simp
next
  case (StateChange c)
  with assms(2) show ?thesis by simp
next
  case (VisibilityChange v c)
  with assms(2) show ?thesis by simp
qed

lemma run_anchored:
  assumes "run as m = Some m'" and "anchored a base m" and "\<forall>act \<in> set as. no_anchor act"
  shows "anchored a base m'"
  using assms(1,2)
proof (rule run_invariant)
  fix act x y
  assume "act \<in> set as" "anchored a base x" "perform act x = Some y"
  with assms(3) show "anchored a base y" by (auto intro: perform_anchored)
qed

lemma latency_or_default_nonneg:
  assumes "case baseLatency c of None \<Rightarrow> True | Some l \<Rightarrow> 0 \<le> l"
  shows "0 \<le> latency_or_default c"
  using assms by (auto simp: latency_or_default_def split: option.splits)

text \<open>
  C2, as the claim states it, fails in two ways. When the clock reports a latency of zero,
  the margin is the default 0.01 s, not the reported latency: the page becomes visible at
  5 s while the engine runs, and the cursor is re-anchored to 5.01 s. And the state-change
  of the clock to running re-anchors nothing: its listener is registered only from the
  \<^verbatim>\<open>onStart\<close> hook, which \<^verbatim>\<open>start()\<close> never calls, so after a start at 0 s the
  state-change at 2 s leaves the cursor at 0.51 s.
\<close>

theorem C2_counterexample:
  "map_option nextBeatTime
     (run [Start \<lparr>currentTime = 0, baseLatency = None, ctxState = CtxRunning\<rparr> 7,
           VisibilityChange True \<lparr>currentTime = 5, baseLatency = Some 0, ctxState = CtxRunning\<rparr>]
        new_metronome) = Some (Fin (5 + 1 / 100)) \<and>
   Fin (5 + 1 / 100) \<noteq> Fin (5 + 0) \<and>
   map_option nextBeatTime
     (run [InitMobile,
           Start \<lparr>currentTime = 0, baseLatency = None, ctxState = CtxRunning\<rparr> 7,
           StateChange \<lparr>currentTime = 2, baseLatency = None, ctxState = CtxRunning\<rparr>]
        new_metronome) = Some (Fin (51 / 100)) \<and>
   Fin (51 / 100) \<noteq> Fin (2 + 1 / 100)"
proof -
  let ?ca = "\<lparr>currentTime = 0, baseLatency = None, ctxState = CtxRunning\<rparr>"
  let ?cb = "\<lparr>currentTime = 5, baseLatency = Some 0, ctxState = CtxRunning\<rparr>"
  let ?cd = "\<lparr>currentTime = 2, baseLatency = None, ctxState = CtxRunning\<rparr>"
  obtain m where m: "start ?ca 7 new_metronome = Some m" using start_example by blast
  then have run: "isRunning m" by (rule start_Some_running)
  from m have "audioCtx m" using start_example by (auto simp: new_metronome_def)
  with run have "nextBeatTime (on_visibilitychange True ?cb m) = Fin (5 + 1 / 100)"
    by (simp add: on_visibilitychange_def recoverPlayback_def latency_or_default_def)
  with m have v: "map_option nextBeatTime (run [Start ?ca 7, VisibilityChange True ?cb] new_metronome)
      = Some (Fin (5 + 1 / 100))"
    by simp
  have s: "map_option nextBeatTime (run [InitMobile, Start ?ca 7, StateChange ?cd] new_metronome)
      = Some (Fin (51 / 100))"
    by (simp add: initMobile_def on_statechange_def start_def new_metronome_def isRunning_def
        ensureAudioContext_def schedule_def schedule_loop.simps latency_or_default_def
        SCHEDULE_AHEAD_TIME_def advanceBeat_def scheduleClick_def Let_def js_sub_def js_trunc_def)
  from v s show ?thesis by simp
qed

text \<open>
  C2, amended: whenever the page becomes visible while the engine is running, the recovery
  re-anchor runs, and the next-event timestamp afterwards is the clock's current time plus
  the safety margin: the reported output latency if it is not zero, 0.01 s if it is absent
  or zero. For a non-negative reported latency that is never earlier than the clock's
  current reading. The re-anchor itself emits nothing, and every event emitted afterwards,
  by any passes and setter calls until the next start or re-anchor and at whatever point of
  a pass, has a timestamp not earlier than the anchor, however long the gap was.
\<close>

theorem C2_reanchor:
  assumes "reachable m" and "isRunning m"
    and "case baseLatency c of None \<Rightarrow> True | Some l \<Rightarrow> 0 \<le> l"
  shows "perform (VisibilityChange True c) m = Some (recoverPlayback c m) \<and>
         nextBeatTime (recoverPlayback c m) = Fin (currentTime c + latency_or_default c) \<and>
         latency_or_default c =
           (case baseLatency c of None \<Rightarrow> 0.01 | Some l \<Rightarrow> if l = 0 then 0.01 else l) \<and>
         currentTime c \<le> currentTime c + latency_or_default c \<and>
         clicks (recoverPlayback c m) = clicks m \<and>
         (\<forall>as m2 c' n. (\<forall>a \<in> set as. no_anchor a) \<and> run as (recoverPlayback c m) = Some m2 \<longrightarrow>
            (\<forall>e \<in> set (clicks_since (length (clicks m)) (pass_steps n (scheduleUntil c') c' m2)).
               \<exists>t. click_time e = Fin t \<and> currentTime c + latency_or_default c \<le> t))"
proof -
  let ?t = "currentTime c + latency_or_default c"
  let ?m1 = "recoverPlayback c m"
  from reachable_invs[OF assms(1)] assms(2) have cfg: "cfg_inv m" and ctx: "audioCtx m"
    by (simp_all add: timer_inv_def)
  from assms(2) have vis: "perform (VisibilityChange True c) m = Some ?m1"
    by (simp add: on_visibilitychange_def)
  from assms(2) ctx have nb: "nextBeatTime ?m1 = Fin ?t" and cl: "clicks ?m1 = clicks m"
    by (auto simp: recoverPlayback_def isRunning_def Let_def)
  from assms(2) ctx cfg have cfg1: "cfg_inv ?m1"
    by (auto simp: recoverPlayback_def isRunning_def Let_def cfg_inv_def)
  from cfg1 nb cl have anc: "anchored ?t (length (clicks m)) ?m1"
    by (simp add: anchored_def clicks_since_def)
  have later: "\<exists>t. click_time e = Fin t \<and> ?t \<le> t"
    if "\<forall>a \<in> set as. no_anchor a" and "run as ?m1 = Some m2"
      and "e \<in> set (clicks_since (length (clicks m)) (pass_steps n (scheduleUntil c') c' m2))"
    for as m2 c' n e
  proof -
    from run_anchored[OF that(2) anc that(1)]
    have "anchored ?t (length (clicks m)) (pass_steps n (scheduleUntil c') c' m2)"
      by (rule pass_steps_anchored)
    with that(3) have "case click_time e of Fin t \<Rightarrow> ?t \<le> t | _ \<Rightarrow> False"
      by (simp add: anchored_def)
    then show ?thesis by (cases "click_time e") simp_all
  qed
  from latency_or_default_nonneg[OF assms(3)] have "currentTime c \<le> ?t" by simp
  with vis nb cl later show ?thesis by (auto simp: latency_or_default_def)
qed

text \<open>
  C2 at a page that becomes visible at 5 s, with a reported latency of 0.02 s, after a start
  at 0 s: the cursor is re-anchored from 0.51 s to 5.02 s.
\<close>

theorem C2_witness:
  "\<exists>m. start \<lparr>currentTime = 0, baseLatency = None, ctxState = CtxRunning\<rparr> 7 new_metronome = Some m \<and>
       isRunning m \<and> nextBeatTime m = Fin (51 / 100) \<and>
       map_option nextBeatTime
         (perform (VisibilityChange True
            \<lparr>currentTime = 5, baseLatency = Some (1 / 50), ctxState = CtxRunning\<rparr>) m) =
         Some (Fin (5 + 1 / 50))"
proof -
  let ?ca = "\<lparr>currentTime = 0, baseLatency = None, ctxState = CtxRunning\<rparr>"
  let ?cb = "\<lparr>currentTime = 5, baseLatency = Some (1 / 50), ctxState = CtxRunning\<rparr>"
  obtain m where m: "start ?ca 7 new_metronome = Some m" and nb: "nextBeatTime m = Fin (51 / 100)"
    using start_example by simp
  from m have "run [Start ?ca 7] new_metronome = Some m" by simp
  then have r: "reachable m" unfolding reachable_def by blast
  have run: "isRunning m" using m by (rule start_Some_running)
  have lat: "case baseLatency ?cb of None \<Rightarrow> True | Some l \<Rightarrow> 0 \<le> l" by simp
  have "map_option nextBeatTime (perform (VisibilityChange True ?cb) m) = Some (Fin (5 + 1 / 50))"
    using C2_reanchor[OF r run lat] by (simp add: latency_or_default_def)
  with m run nb show ?thesis by blast
qed

section \<open>The sequence of beats and subdivisions\<close>










end
